theory Spec2Isabelle
  imports Main "HOL-Library.Sublist"
begin

section \<open>Python strings\<close>

text \<open>
  A Python \<open>str\<close> is a sequence of Unicode code points. A code point is a natural
  number here, a string a list of them, and a string literal of the script is the list of
  the codes of its (ASCII) characters.
\<close>

type_synonym pystr = "nat list"

definition lit :: "string \<Rightarrow> pystr" where
  "lit s = map of_char s"

text \<open>
  \<open>str.strip()\<close> without argument removes leading and trailing whitespace, which for
  \<open>str\<close> is every code point with \<open>isspace()\<close> true.
\<close>

definition isspace :: "nat \<Rightarrow> bool" where
  "isspace c \<longleftrightarrow>
     (0x09 \<le> c \<and> c \<le> 0x0D) \<or> (0x1C \<le> c \<and> c \<le> 0x20) \<or> c = 0x85 \<or> c = 0xA0 \<or>
     c = 0x1680 \<or> (0x2000 \<le> c \<and> c \<le> 0x200A) \<or> c = 0x2028 \<or> c = 0x2029 \<or>
     c = 0x202F \<or> c = 0x205F \<or> c = 0x3000"

definition strip :: "pystr \<Rightarrow> pystr" where
  "strip s = rev (dropWhile isspace (rev (dropWhile isspace s)))"

definition startswith :: "pystr \<Rightarrow> pystr \<Rightarrow> bool" where
  "startswith s p \<longleftrightarrow> prefix p s"

definition endswith :: "pystr \<Rightarrow> pystr \<Rightarrow> bool" where
  "endswith s p \<longleftrightarrow> suffix p s"

text \<open>\<open>sub in s\<close>: \<open>sub\<close> occurs in \<open>s\<close> as a contiguous substring.\<close>

fun py_in :: "pystr \<Rightarrow> pystr \<Rightarrow> bool" where
  "py_in sub [] \<longleftrightarrow> sub = []"
| "py_in sub (c # cs) \<longleftrightarrow> prefix sub (c # cs) \<or> py_in sub cs"

section \<open>The conditional-block filter: \<open>process_file\<close>\<close>

text \<open>The four tokens the filter looks for, and the directive marker.\<close>

definition hash :: pystr where
  "hash = lit ''#''"

definition tok_ifndef :: pystr where
  "tok_ifndef = lit ''#ifndef USE_VULKAN''"

definition tok_ifdef :: pystr where
  "tok_ifdef = lit ''#ifdef USE_VULKAN''"

definition tok_else :: pystr where
  "tok_else = lit ''#else''"

definition tok_endif :: pystr where
  "tok_endif = lit ''#endif''"

text \<open>
  The local variables of the \<open>while\<close> loop of \<open>process_file\<close>. The counters are Python
  integers, so they are \<open>int\<close>: nothing in their type keeps them from going negative.
\<close>

record loop_state =
  output_lines :: "pystr list"
  skip_depth :: int
  keep_depth :: int
  i :: nat

definition init_state :: loop_state where
  "init_state = \<lparr>output_lines = [], skip_depth = 0, keep_depth = 0, i = 0\<rparr>"

text \<open>
  The tail of the loop body, reached by every line that no branch has consumed:
  \<open>if skip_depth == 0: output_lines.append(line)\<close>, then \<open>i += 1\<close>.
\<close>

definition emit :: "pystr \<Rightarrow> loop_state \<Rightarrow> loop_state" where
  "emit line st =
     (if skip_depth st = 0
      then st\<lparr>output_lines := output_lines st @ [line], i := i st + 1\<rparr>
      else st\<lparr>i := i st + 1\<rparr>)"

text \<open>
  One iteration of the loop, for \<open>i < len(lines)\<close>. Each of the four branches ends in
  \<open>i += 1; continue\<close>; the tests are made in the order of the source.
\<close>

definition loop_body :: "pystr list \<Rightarrow> loop_state \<Rightarrow> loop_state" where
  "loop_body lines st =
     (let line = lines ! i st in
      if startswith (strip line) hash then
        (let stripped = strip line in
         if py_in tok_ifndef stripped then
           st\<lparr>skip_depth := skip_depth st + 1, i := i st + 1\<rparr>
         else if py_in tok_ifdef stripped then
           st\<lparr>keep_depth := keep_depth st + 1, i := i st + 1\<rparr>
         else if py_in tok_else stripped \<and> (skip_depth st > 0 \<or> keep_depth st > 0) then
           (if skip_depth st > 0 then
              st\<lparr>skip_depth := skip_depth st - 1, keep_depth := keep_depth st + 1,
                 i := i st + 1\<rparr>
            else if keep_depth st > 0 then
              st\<lparr>keep_depth := keep_depth st - 1, skip_depth := skip_depth st + 1,
                 i := i st + 1\<rparr>
            else st\<lparr>i := i st + 1\<rparr>)
         else if py_in tok_endif stripped \<and> (skip_depth st > 0 \<or> keep_depth st > 0) then
           (if skip_depth st > 0 then
              st\<lparr>skip_depth := skip_depth st - 1, i := i st + 1\<rparr>
            else if keep_depth st > 0 then
              st\<lparr>keep_depth := keep_depth st - 1, i := i st + 1\<rparr>
            else st\<lparr>i := i st + 1\<rparr>)
         else emit line st)
      else emit line st)"

text \<open>\<open>while i < len(lines): ...\<close>\<close>

function process_loop :: "pystr list \<Rightarrow> loop_state \<Rightarrow> loop_state" where
  "process_loop lines st =
     (if i st < length lines then process_loop lines (loop_body lines st) else st)"
  by pat_completeness auto
termination
  by (relation "measure (\<lambda>(lines, st). length lines - i st)")
    (auto simp: loop_body_def emit_def Let_def)

declare process_loop.simps [simp del]

text \<open>
  The filter proper: what \<open>process_file\<close> computes from the lines it has read.
\<close>

definition process_lines :: "pystr list \<Rightarrow> pystr list" where
  "process_lines lines = output_lines (process_loop lines init_state)"

text \<open>
  The state in which the loop tests its condition for the \<open>k\<close>-th time (counting from 0),
  that is, after \<open>k\<close> iterations: the state in which line \<open>k\<close> is seen.
\<close>

definition state_at :: "pystr list \<Rightarrow> nat \<Rightarrow> loop_state" where
  "state_at lines k = (loop_body lines ^^ k) init_state"

text \<open>Vocabulary for the lines of a file, in the terms of the tests of the loop body.\<close>

definition is_directive :: "pystr \<Rightarrow> bool" where
  "is_directive line \<longleftrightarrow> startswith (strip line) hash"

definition has_token :: "pystr \<Rightarrow> pystr \<Rightarrow> bool" where
  "has_token tok line \<longleftrightarrow> py_in tok (strip line)"

text \<open>A line that one of the first two branches consumes.\<close>

definition opens_region :: "pystr \<Rightarrow> bool" where
  "opens_region line \<longleftrightarrow>
     is_directive line \<and> (has_token tok_ifndef line \<or> has_token tok_ifdef line)"

text \<open>A line that reaches the test of the third or fourth branch and has its token.\<close>

definition closes_region :: "pystr \<Rightarrow> bool" where
  "closes_region line \<longleftrightarrow>
     is_directive line \<and> \<not> opens_region line \<and>
     (has_token tok_else line \<or> has_token tok_endif line)"

section \<open>The tree walker and rewrite driver: \<open>clean_renderer_files\<close>\<close>

text \<open>
  A directory: the names of its files and its subdirectories by name. The world the
  script runs in: the directory found at a path (with all that is below it), the text of
  the file at a path, held as the list of lines that \<open>readlines()\<close> returns for it, the
  paths that cannot be opened for writing, the strings given to \<open>print\<close>, and the
  paths opened for writing, both in the order of the calls. The lines that \<open>writelines\<close> stores are the lines a later \<open>readlines()\<close> returns:
  the filter keeps the order of the lines, so only the last line of its output can lack
  the newline. Decoding, encoding and the translation of newlines are below this model.
\<close>

datatype dirtree = Dir (dir_files: "pystr list") (dir_subdirs: "(pystr \<times> dirtree) list")

record world =
  dirs :: "pystr \<rightharpoonup> dirtree"
  files :: "pystr \<rightharpoonup> pystr list"
  readonly :: "pystr set"
  stdout :: "pystr list"
  writes :: "pystr list"

text \<open>Neither \<open>open\<close> is inside a \<open>try\<close>: an error ends the run.\<close>

datatype error = FileNotFoundError pystr | PermissionError pystr

text \<open>
  \<open>os.path.join(a, b)\<close> for a relative component \<open>b\<close>, as the names of directory entries
  and the components \<open>'src'\<close>, \<open>'engine'\<close>, \<open>'renderer'\<close> are. The separator depends on the
  platform and is a parameter.
\<close>

definition path_join :: "pystr \<Rightarrow> pystr \<Rightarrow> pystr \<Rightarrow> pystr" where
  "path_join sep a b = (if a = [] \<or> endswith a sep then a @ b else a @ sep @ b)"

text \<open>
  \<open>os.walk(dirpath)\<close>, top-down and not following links: the triple of a directory first,
  then the walks of its subdirectories in turn, each under the joined path.
\<close>

fun os_walk :: "pystr \<Rightarrow> pystr \<Rightarrow> dirtree \<Rightarrow> (pystr \<times> pystr list \<times> pystr list) list" where
  "os_walk sep dirpath (Dir fs subs) =
     (dirpath, map fst subs, fs) #
     concat (map (\<lambda>(name, sub). os_walk sep (path_join sep dirpath name) sub) subs)"

text \<open>A path that is not a directory yields nothing: \<open>os.walk\<close> ignores the error.\<close>

definition walk :: "pystr \<Rightarrow> world \<Rightarrow> pystr \<Rightarrow> (pystr \<times> pystr list \<times> pystr list) list" where
  "walk sep w dirpath =
     (case dirs w dirpath of None \<Rightarrow> [] | Some t \<Rightarrow> os_walk sep dirpath t)"

text \<open>The inner loop \<open>for file in files\<close>, appending to \<open>files_to_process\<close>.\<close>

fun scan_files :: "pystr \<Rightarrow> pystr \<Rightarrow> pystr list \<Rightarrow> pystr list \<Rightarrow> pystr list" where
  "scan_files sep root [] files_to_process = files_to_process"
| "scan_files sep root (file # rest) files_to_process =
     scan_files sep root rest
       (if endswith file (lit ''.c'') \<or> endswith file (lit ''.h'')
        then files_to_process @ [path_join sep root file]
        else files_to_process)"

text \<open>The outer loop \<open>for root, dirs, files in os.walk(renderer_path)\<close>.\<close>

fun scan_walk ::
  "pystr \<Rightarrow> (pystr \<times> pystr list \<times> pystr list) list \<Rightarrow> pystr list \<Rightarrow> pystr list" where
  "scan_walk sep [] files_to_process = files_to_process"
| "scan_walk sep ((root, ds, fs) # rest) files_to_process =
     scan_walk sep rest
       (if py_in (lit ''vulkan'') root then files_to_process
        else scan_files sep root fs files_to_process)"

definition renderer_path :: "pystr \<Rightarrow> pystr \<Rightarrow> pystr" where
  "renderer_path sep base_path =
     path_join sep (path_join sep (path_join sep base_path (lit ''src'')) (lit ''engine''))
       (lit ''renderer'')"

definition find_files :: "pystr \<Rightarrow> world \<Rightarrow> pystr \<Rightarrow> pystr list" where
  "find_files sep w base_path = scan_walk sep (walk sep w (renderer_path sep base_path)) []"

text \<open>\<open>open(filepath, 'r', ...)\<close> with \<open>f.readlines()\<close>; a missing file raises.\<close>

definition read_lines :: "world \<Rightarrow> pystr \<Rightarrow> error + pystr list" where
  "read_lines w filepath =
     (case files w filepath of None \<Rightarrow> Inl (FileNotFoundError filepath) | Some ls \<Rightarrow> Inr ls)"

definition process_file :: "world \<Rightarrow> pystr \<Rightarrow> error + pystr list" where
  "process_file w filepath =
     (case read_lines w filepath of Inl e \<Rightarrow> Inl e | Inr lines \<Rightarrow> Inr (process_lines lines))"

definition print :: "pystr \<Rightarrow> world \<Rightarrow> world" where
  "print s w = w\<lparr>stdout := stdout w @ [s]\<rparr>"

text \<open>
  \<open>open(filepath, 'w', ...)\<close> with \<open>f.writelines(lines)\<close>; a path that cannot be opened
  for writing raises, and nothing is written.
\<close>

definition write_lines :: "pystr \<Rightarrow> pystr list \<Rightarrow> world \<Rightarrow> error + world" where
  "write_lines filepath ls w =
     (if filepath \<in> readonly w then Inl (PermissionError filepath)
      else Inr (w\<lparr>files := (files w)(filepath \<mapsto> ls), writes := writes w @ [filepath]\<rparr>))"

text \<open>The decimal numeral that an f-string puts for an integer.\<close>

function str_nat :: "nat \<Rightarrow> pystr" where
  "str_nat n = (if n < 10 then [48 + n] else str_nat (n div 10) @ [48 + n mod 10])"
  by pat_completeness auto
termination
  by (relation "measure id") auto

declare str_nat.simps [simp del]

definition str_int :: "int \<Rightarrow> pystr" where
  "str_int n = (if n < 0 then lit ''-'' @ str_nat (nat (- n)) else str_nat (nat n))"

text \<open>
  The body of the loop \<open>for filepath in files_to_process\<close>, on the world and
  \<open>modified_count\<close>.
\<close>

definition rewrite_file :: "pystr \<Rightarrow> world \<times> int \<Rightarrow> error + world \<times> int" where
  "rewrite_file filepath s =
     (case s of (w, modified_count) \<Rightarrow>
       (case read_lines w filepath of Inl e \<Rightarrow> Inl e | Inr original_lines \<Rightarrow>
         (case process_file w filepath of Inl e \<Rightarrow> Inl e | Inr processed_lines \<Rightarrow>
           (if processed_lines \<noteq> original_lines then
              (case write_lines filepath processed_lines w of Inl e \<Rightarrow> Inl e | Inr w' \<Rightarrow>
                 Inr (print (lit ''Modified: '' @ filepath) w', modified_count + 1))
            else Inr (w, modified_count)))))"

fun rewrite_all :: "pystr list \<Rightarrow> world \<times> int \<Rightarrow> error + world \<times> int" where
  "rewrite_all [] s = Inr s"
| "rewrite_all (filepath # rest) s =
     (case rewrite_file filepath s of Inl e \<Rightarrow> Inl e | Inr s' \<Rightarrow> rewrite_all rest s')"

definition clean_renderer_files :: "pystr \<Rightarrow> pystr \<Rightarrow> world \<Rightarrow> error + world" where
  "clean_renderer_files sep base_path w =
     (let files_to_process = find_files sep w base_path;
          w1 = print (lit ''Found '' @ str_int (int (length files_to_process)) @
                      lit '' files to process'') w
      in case rewrite_all files_to_process (w1, 0) of
           Inl e \<Rightarrow> Inl e
         | Inr (w2, modified_count) \<Rightarrow>
             Inr (print (lit ''OpenGL code removal complete!'')
                   (print (lit ''\<newline>Modified '' @ str_int modified_count @ lit '' files'') w2)))"

text \<open>Whether the driver finds the file at a path changed by the filter.\<close>

definition needs_rewrite :: "world \<Rightarrow> pystr \<Rightarrow> bool" where
  "needs_rewrite w filepath \<longleftrightarrow>
     (case files w filepath of None \<Rightarrow> False | Some ls \<Rightarrow> process_lines ls \<noteq> ls)"

text \<open>
  A small renderer directory to run the driver on: two files at the top, the directory
  \<open>vulkan\<close> with a file and a subdirectory, and the directory \<open>common\<close>. Two of the
  files are read-only: one under \<open>vulkan\<close>, and one candidate that the filter leaves as
  it is.
\<close>

definition example_tree :: dirtree where
  "example_tree =
     Dir [lit ''tr_main.c'', lit ''notes.txt'']
       [(lit ''vulkan'', Dir [lit ''vk.c''] [(lit ''shaders'', Dir [lit ''gen.h''] [])]),
        (lit ''common'', Dir [lit ''tr_local.h''] [])]"

definition example_world :: world where
  "example_world =
     \<lparr>dirs = [lit ''q3/src/engine/renderer'' \<mapsto> example_tree],
      files =
        [lit ''q3/src/engine/renderer/tr_main.c'' \<mapsto>
           map lit [''#ifndef USE_VULKAN\<newline>'', ''gl();\<newline>'', ''#endif\<newline>'', ''vk();\<newline>''],
         lit ''q3/src/engine/renderer/notes.txt'' \<mapsto> map lit [''#ifndef USE_VULKAN\<newline>''],
         lit ''q3/src/engine/renderer/vulkan/vk.c'' \<mapsto>
           map lit [''#ifndef USE_VULKAN\<newline>'', ''gl_code();\<newline>'', ''#endif\<newline>''],
         lit ''q3/src/engine/renderer/vulkan/shaders/gen.h'' \<mapsto>
           map lit [''#ifdef USE_VULKAN\<newline>'', ''vk_code();\<newline>'', ''#endif\<newline>''],
         lit ''q3/src/engine/renderer/common/tr_local.h'' \<mapsto> map lit [''int x;\<newline>'']],
      readonly = {lit ''q3/src/engine/renderer/vulkan/vk.c'',
        lit ''q3/src/engine/renderer/common/tr_local.h''},
      stdout = [], writes = []\<rparr>"

section \<open>The loop, iteration by iteration\<close>

lemma state_at_0: "state_at lines 0 = init_state"
  by (simp add: state_at_def)

lemma state_at_Suc: "state_at lines (Suc k) = loop_body lines (state_at lines k)"
  by (simp add: state_at_def)

lemma i_loop_body: "i (loop_body lines st) = Suc (i st)"
  by (simp add: loop_body_def emit_def Let_def)

lemma i_state_at: "i (state_at lines k) = k"
  by (induction k) (simp_all add: state_at_0 state_at_Suc i_loop_body init_state_def)

text \<open>From the state of any iteration the loop runs on to the state after the last line.\<close>

lemma process_loop_from_state_at:
  "k \<le> length lines \<Longrightarrow> process_loop lines (state_at lines k) = state_at lines (length lines)"
proof (induction "length lines - k" arbitrary: k)
  case 0
  then have "k = length lines" by simp
  then show ?case
    by (subst process_loop.simps) (simp add: i_state_at)
next
  case (Suc d)
  then have lt: "k < length lines" and d: "d = length lines - Suc k" by simp_all
  have "process_loop lines (state_at lines k) = process_loop lines (state_at lines (Suc k))"
    using lt by (subst process_loop.simps) (simp add: i_state_at state_at_Suc)
  also have "\<dots> = state_at lines (length lines)"
    using Suc.hyps(1) [OF d] lt by simp
  finally show ?case .
qed

lemma process_lines_state_at:
  "process_lines lines = output_lines (state_at lines (length lines))"
  using process_loop_from_state_at [of 0 lines]
  by (simp add: process_lines_def state_at_0)

text \<open>What one iteration does, by the kind of line.\<close>

lemma loop_body_ifndef:
  "is_directive (lines ! i st) \<Longrightarrow> has_token tok_ifndef (lines ! i st) \<Longrightarrow>
   loop_body lines st = st\<lparr>skip_depth := skip_depth st + 1, i := i st + 1\<rparr>"
  by (simp add: loop_body_def is_directive_def has_token_def)

lemma loop_body_ifdef:
  "is_directive (lines ! i st) \<Longrightarrow> \<not> has_token tok_ifndef (lines ! i st) \<Longrightarrow>
   has_token tok_ifdef (lines ! i st) \<Longrightarrow>
   loop_body lines st = st\<lparr>keep_depth := keep_depth st + 1, i := i st + 1\<rparr>"
  by (simp add: loop_body_def is_directive_def has_token_def)

lemma loop_body_plain:
  "\<not> opens_region (lines ! i st) \<Longrightarrow> \<not> closes_region (lines ! i st) \<Longrightarrow>
   loop_body lines st = emit (lines ! i st) st"
  by (auto simp add: loop_body_def is_directive_def has_token_def opens_region_def
      closes_region_def Let_def)

lemma loop_body_unopened:
  "\<not> opens_region (lines ! i st) \<Longrightarrow> skip_depth st = 0 \<Longrightarrow> keep_depth st = 0 \<Longrightarrow>
   loop_body lines st = emit (lines ! i st) st"
  by (auto simp add: loop_body_def is_directive_def has_token_def opens_region_def Let_def)

lemma loop_body_output_cases:
  "output_lines (loop_body lines st) = output_lines st \<or>
   (output_lines (loop_body lines st) = output_lines st @ [lines ! i st] \<and>
    skip_depth st = 0 \<and> \<not> opens_region (lines ! i st) \<and>
    (closes_region (lines ! i st) \<longrightarrow> keep_depth st \<le> 0))"
  by (auto simp add: loop_body_def emit_def is_directive_def has_token_def opens_region_def
      closes_region_def Let_def)

lemma loop_body_nonneg:
  "0 \<le> skip_depth st \<Longrightarrow> 0 \<le> keep_depth st \<Longrightarrow>
   0 \<le> skip_depth (loop_body lines st) \<and> 0 \<le> keep_depth (loop_body lines st)"
  by (simp add: loop_body_def emit_def Let_def)

lemma state_at_nonneg:
  "0 \<le> skip_depth (state_at lines k) \<and> 0 \<le> keep_depth (state_at lines k)"
proof (induction k)
  case 0
  show ?case by (simp add: state_at_0 init_state_def)
next
  case (Suc k)
  then show ?case
    using loop_body_nonneg [of "state_at lines k" lines] by (simp add: state_at_Suc)
qed

lemma output_step:
  "k < length lines \<Longrightarrow>
   output_lines (state_at lines (Suc k)) = output_lines (state_at lines k) \<or>
   (output_lines (state_at lines (Suc k)) = output_lines (state_at lines k) @ [lines ! k] \<and>
    skip_depth (state_at lines k) = 0 \<and> \<not> opens_region (lines ! k) \<and>
    (closes_region (lines ! k) \<longrightarrow> keep_depth (state_at lines k) = 0))"
  using loop_body_output_cases [of lines "state_at lines k"] state_at_nonneg [of lines k]
  by (auto simp add: state_at_Suc i_state_at)

lemma output_prefix_step:
  "prefix (output_lines (state_at lines k)) (output_lines (state_at lines (Suc k)))"
  using loop_body_output_cases [of lines "state_at lines k"]
  by (auto simp add: state_at_Suc)

lemma output_prefix:
  "k \<le> n \<Longrightarrow> prefix (output_lines (state_at lines k)) (output_lines (state_at lines n))"
proof (induction n)
  case 0
  then show ?case by simp
next
  case (Suc n)
  show ?case
  proof (cases "k = Suc n")
    case True
    then show ?thesis by simp
  next
    case False
    with Suc.prems have "k \<le> n" by simp
    then have "prefix (output_lines (state_at lines k)) (output_lines (state_at lines n))"
      by (rule Suc.IH)
    then show ?thesis
      using output_prefix_step [of lines n] by (rule prefix_order.trans)
  qed
qed


lemma output_no_opener:
  "k \<le> length lines \<Longrightarrow> \<forall>l \<in> set (output_lines (state_at lines k)). \<not> opens_region l"
proof (induction k)
  case 0
  show ?case by (simp add: state_at_0 init_state_def)
next
  case (Suc k)
  then have lt: "k < length lines" by simp
  then have IH: "\<forall>l \<in> set (output_lines (state_at lines k)). \<not> opens_region l"
    using Suc.IH by simp
  from output_step [OF lt] IH show ?case by auto
qed

text \<open>A file with no line that opens a region passes through whole, its counters at 0.\<close>

lemma no_opener_state:
  "k \<le> length lines \<Longrightarrow> \<forall>l \<in> set lines. \<not> opens_region l \<Longrightarrow>
   state_at lines k = \<lparr>output_lines = take k lines, skip_depth = 0, keep_depth = 0, i = k\<rparr>"
proof (induction k)
  case 0
  show ?case by (simp add: state_at_0 init_state_def)
next
  case (Suc k)
  then have lt: "k < length lines" by simp
  then have st: "state_at lines k =
      \<lparr>output_lines = take k lines, skip_depth = 0, keep_depth = 0, i = k\<rparr>"
    using Suc by simp
  have "\<not> opens_region (lines ! k)" using lt Suc.prems(2) by simp
  then have "loop_body lines (state_at lines k) = emit (lines ! k) (state_at lines k)"
    using loop_body_unopened [of lines "state_at lines k"] st by simp
  then show ?case
    using lt st by (simp add: state_at_Suc emit_def take_Suc_conv_app_nth)
qed

lemma process_lines_no_opener:
  "\<forall>l \<in> set lines. \<not> opens_region l \<Longrightarrow> process_lines lines = lines"
  using no_opener_state [of "length lines" lines] by (simp add: process_lines_state_at)

text \<open>Stepping to the state of a numbered iteration, for evaluation.\<close>

lemma state_at_1: "state_at lines 1 = loop_body lines init_state"
  by (simp add: state_at_def)

lemma state_at_numeral:
  "state_at lines (numeral n) = loop_body lines (state_at lines (pred_numeral n))"
  by (simp add: numeral_eq_Suc state_at_Suc)

lemmas string_eval =
  lit_def strip_def isspace_def startswith_def hash_def tok_ifndef_def tok_ifdef_def
  tok_else_def tok_endif_def is_directive_def has_token_def opens_region_def closes_region_def

lemmas loop_eval =
  process_lines_def process_loop.simps init_state_def loop_body_def emit_def state_at_0
  state_at_Suc state_at_1 state_at_numeral

section \<open>The filter on the example of the specification\<close>

text \<open>
  C1: on the lines \<open>#ifndef USE_VULKAN\<close>, \<open>gl_code();\<close>, \<open>#else\<close>, \<open>vk_code();\<close>,
  \<open>#endif\<close> (each with its newline) the filter returns exactly the line \<open>vk_code();\<close>.
\<close>

theorem scenario_A:
  "process_lines (map lit [''#ifndef USE_VULKAN\<newline>'', ''gl_code();\<newline>'', ''#else\<newline>'',
      ''vk_code();\<newline>'', ''#endif\<newline>'']) = [lit ''vk_code();\<newline>'']"
  by (simp add: loop_eval string_eval)

section \<open>The counters never go below 0\<close>

text \<open>
  C8: both counters are 0 before the first line, and after each line of the pass, and so
  when the loop ends, neither is below 0.
\<close>

theorem counters_nonneg:
  "k \<le> length lines \<Longrightarrow>
   skip_depth (state_at lines 0) = 0 \<and> keep_depth (state_at lines 0) = 0 \<and>
   0 \<le> skip_depth (state_at lines k) \<and> 0 \<le> keep_depth (state_at lines k) \<and>
   0 \<le> skip_depth (process_loop lines init_state) \<and>
   0 \<le> keep_depth (process_loop lines init_state)"
  using state_at_nonneg [of lines k] state_at_nonneg [of lines "length lines"]
    process_loop_from_state_at [of 0 lines]
  by (simp add: state_at_0 init_state_def)

theorem counters_nonneg_witness:
  "(2::nat) \<le> length (map lit [''#ifdef USE_VULKAN\<newline>'', ''#else\<newline>'', ''#endif\<newline>'']) \<and>
   skip_depth (state_at (map lit [''#ifdef USE_VULKAN\<newline>'', ''#else\<newline>'', ''#endif\<newline>'']) 2) = 1 \<and>
   keep_depth (state_at (map lit [''#ifdef USE_VULKAN\<newline>'', ''#else\<newline>'', ''#endif\<newline>'']) 2) = 0 \<and>
   0 \<le> skip_depth (process_loop
     (map lit [''#ifdef USE_VULKAN\<newline>'', ''#else\<newline>'', ''#endif\<newline>'']) init_state)"
proof -
  let ?L = "map lit [''#ifdef USE_VULKAN\<newline>'', ''#else\<newline>'', ''#endif\<newline>'']"
  have len: "(2::nat) \<le> length ?L" by simp
  have st: "state_at ?L 2 = \<lparr>output_lines = [], skip_depth = 1, keep_depth = 0, i = 2\<rparr>"
    by (simp add: loop_eval string_eval)
  show ?thesis using counters_nonneg [OF len] st by simp
qed

section \<open>Idempotence\<close>

text \<open>
  C3: the filter applied to its own output gives that output again: the output has no
  line that opens a region, and on such lines the counters stay at 0 and every line is
  appended.
\<close>

theorem filter_idempotent: "process_lines (process_lines lines) = process_lines lines"
proof -
  have "\<forall>l \<in> set (process_lines lines). \<not> opens_region l"
    using output_no_opener [of "length lines" lines] by (simp add: process_lines_state_at)
  then show ?thesis by (rule process_lines_no_opener)
qed

section \<open>Lines that open a region\<close>

text \<open>
  C10: no line of the output is a directive line (trimmed content starting with \<open>#\<close>)
  that contains \<open>#ifndef USE_VULKAN\<close> or \<open>#ifdef USE_VULKAN\<close>. Whatever the counters
  are when such a line is seen, the iteration increments the counter of the first token
  that matches and leaves the output as it is.
\<close>

theorem openers_never_emitted:
  "(\<forall>l \<in> set (process_lines lines).
      \<not> (is_directive l \<and> (has_token tok_ifndef l \<or> has_token tok_ifdef l))) \<and>
   (k < length lines \<longrightarrow> is_directive (lines ! k) \<longrightarrow> has_token tok_ifndef (lines ! k) \<longrightarrow>
      state_at lines (Suc k) =
        (state_at lines k)\<lparr>skip_depth := skip_depth (state_at lines k) + 1, i := Suc k\<rparr>) \<and>
   (k < length lines \<longrightarrow> is_directive (lines ! k) \<longrightarrow> \<not> has_token tok_ifndef (lines ! k) \<longrightarrow>
      has_token tok_ifdef (lines ! k) \<longrightarrow>
      state_at lines (Suc k) =
        (state_at lines k)\<lparr>keep_depth := keep_depth (state_at lines k) + 1, i := Suc k\<rparr>)"
proof (intro conjI impI)
  show "\<forall>l \<in> set (process_lines lines).
      \<not> (is_directive l \<and> (has_token tok_ifndef l \<or> has_token tok_ifdef l))"
    using output_no_opener [of "length lines" lines]
    by (simp add: process_lines_state_at opens_region_def)
next
  assume "is_directive (lines ! k)" "has_token tok_ifndef (lines ! k)"
  then show "state_at lines (Suc k) =
      (state_at lines k)\<lparr>skip_depth := skip_depth (state_at lines k) + 1, i := Suc k\<rparr>"
    using loop_body_ifndef [of lines "state_at lines k"]
    by (simp add: state_at_Suc i_state_at)
next
  assume "is_directive (lines ! k)" "\<not> has_token tok_ifndef (lines ! k)"
    "has_token tok_ifdef (lines ! k)"
  then show "state_at lines (Suc k) =
      (state_at lines k)\<lparr>keep_depth := keep_depth (state_at lines k) + 1, i := Suc k\<rparr>"
    using loop_body_ifdef [of lines "state_at lines k"]
    by (simp add: state_at_Suc i_state_at)
qed


theorem openers_never_emitted_witness:
  "lit ''x\<newline>'' \<in> set (process_lines
      (map lit [''#ifdef USE_VULKAN\<newline>'', ''x\<newline>'', ''#ifndef USE_VULKAN\<newline>''])) \<and>
   \<not> (is_directive (lit ''x\<newline>'') \<and>
      (has_token tok_ifndef (lit ''x\<newline>'') \<or> has_token tok_ifdef (lit ''x\<newline>''))) \<and>
   is_directive (lit ''#ifdef USE_VULKAN\<newline>'') \<and>
   \<not> has_token tok_ifndef (lit ''#ifdef USE_VULKAN\<newline>'') \<and>
   has_token tok_ifdef (lit ''#ifdef USE_VULKAN\<newline>'') \<and>
   keep_depth (state_at
      (map lit [''#ifdef USE_VULKAN\<newline>'', ''x\<newline>'', ''#ifndef USE_VULKAN\<newline>'']) 1) = 1 \<and>
   is_directive (lit ''#ifndef USE_VULKAN\<newline>'') \<and>
   has_token tok_ifndef (lit ''#ifndef USE_VULKAN\<newline>'') \<and>
   skip_depth (state_at
      (map lit [''#ifdef USE_VULKAN\<newline>'', ''x\<newline>'', ''#ifndef USE_VULKAN\<newline>'']) 3) = 1"
proof -
  let ?L = "map lit [''#ifdef USE_VULKAN\<newline>'', ''x\<newline>'', ''#ifndef USE_VULKAN\<newline>'']"
  have out: "process_lines ?L = [lit ''x\<newline>'']"
    by (simp add: loop_eval string_eval)
  have d0: "is_directive (lit ''#ifdef USE_VULKAN\<newline>'')"
    "\<not> has_token tok_ifndef (lit ''#ifdef USE_VULKAN\<newline>'')"
    "has_token tok_ifdef (lit ''#ifdef USE_VULKAN\<newline>'')"
    by (simp_all add: string_eval)
  have d2: "is_directive (lit ''#ifndef USE_VULKAN\<newline>'')"
    "has_token tok_ifndef (lit ''#ifndef USE_VULKAN\<newline>'')"
    by (simp_all add: string_eval)
  have s2: "skip_depth (state_at ?L 2) = 0"
    by (simp add: loop_eval string_eval)
  have k0: "state_at ?L (Suc 0) =
      (state_at ?L 0)\<lparr>keep_depth := keep_depth (state_at ?L 0) + 1, i := Suc 0\<rparr>"
    using openers_never_emitted [of ?L 0] d0 by simp
  have k2: "state_at ?L (Suc 2) =
      (state_at ?L 2)\<lparr>skip_depth := skip_depth (state_at ?L 2) + 1, i := Suc 2\<rparr>"
    using openers_never_emitted [of ?L 2] d2 by simp
  have x: "\<not> (is_directive (lit ''x\<newline>'') \<and>
      (has_token tok_ifndef (lit ''x\<newline>'') \<or> has_token tok_ifdef (lit ''x\<newline>'')))"
    using openers_never_emitted [of ?L 0] out by simp
  have "keep_depth (state_at ?L 1) = 1"
    using k0 by (simp add: state_at_0 init_state_def)
  moreover have "skip_depth (state_at ?L 3) = 1"
    using k2 s2 by (simp add: numeral_3_eq_3)
  ultimately show ?thesis using out d0 d2 x by simp
qed

section \<open>Which lines the filter drops\<close>




lemma emitted_in_output:
  assumes "k < length lines"
    and "output_lines (state_at lines (Suc k)) = output_lines (state_at lines k) @ [l]"
  shows "l \<in> set (process_lines lines)"
proof -
  have "prefix (output_lines (state_at lines (Suc k))) (process_lines lines)"
    using assms(1) output_prefix [of "Suc k" "length lines" lines]
    by (simp add: process_lines_state_at)
  then have "set (output_lines (state_at lines (Suc k))) \<subseteq> set (process_lines lines)"
    by (rule set_mono_prefix)
  then show ?thesis using assms(2) by simp
qed







section \<open>Else and end lines while nothing is open\<close>

text \<open>
  C5, as the code has it: a line with the else or the end token that is seen while both
  counters are 0, and that is not a directive line with an opening token (those are
  tested first), changes neither counter and is appended to the output as it is.
\<close>

theorem unopened_else_endif_emitted:
  "k < length lines \<Longrightarrow>
   skip_depth (state_at lines k) = 0 \<Longrightarrow> keep_depth (state_at lines k) = 0 \<Longrightarrow>
   has_token tok_else (lines ! k) \<or> has_token tok_endif (lines ! k) \<Longrightarrow>
   \<not> opens_region (lines ! k) \<Longrightarrow>
   state_at lines (Suc k) =
     (state_at lines k)\<lparr>output_lines := output_lines (state_at lines k) @ [lines ! k],
        i := Suc k\<rparr> \<and>
   lines ! k \<in> set (process_lines lines)"
proof -
  assume lt: "k < length lines"
    and z: "skip_depth (state_at lines k) = 0" "keep_depth (state_at lines k) = 0"
    and no: "\<not> opens_region (lines ! k)"
  have step: "state_at lines (Suc k) =
      (state_at lines k)\<lparr>output_lines := output_lines (state_at lines k) @ [lines ! k],
        i := Suc k\<rparr>"
    using loop_body_unopened [of lines "state_at lines k"] z no
    by (simp add: state_at_Suc i_state_at emit_def)
  then have "output_lines (state_at lines (Suc k)) =
      output_lines (state_at lines k) @ [lines ! k]"
    by simp
  with lt have "lines ! k \<in> set (process_lines lines)"
    by (rule emitted_in_output)
  with step show ?thesis by simp
qed

theorem unopened_else_endif_emitted_witness:
  "skip_depth (state_at (map lit [''x\<newline>'', ''  #else // !FOO\<newline>'']) 1) = 0 \<and>
   keep_depth (state_at (map lit [''x\<newline>'', ''  #else // !FOO\<newline>'']) 1) = 0 \<and>
   has_token tok_else (lit ''  #else // !FOO\<newline>'') \<and>
   \<not> opens_region (lit ''  #else // !FOO\<newline>'') \<and>
   state_at (map lit [''x\<newline>'', ''  #else // !FOO\<newline>'']) 2 =
     \<lparr>output_lines = map lit [''x\<newline>'', ''  #else // !FOO\<newline>''],
      skip_depth = 0, keep_depth = 0, i = 2\<rparr> \<and>
   lit ''  #else // !FOO\<newline>'' \<in>
     set (process_lines (map lit [''x\<newline>'', ''  #else // !FOO\<newline>'']))"
proof -
  let ?L = "map lit [''x\<newline>'', ''  #else // !FOO\<newline>'']"
  have lt: "1 < length ?L" by simp
  have s1: "state_at ?L 1 =
      \<lparr>output_lines = [lit ''x\<newline>''], skip_depth = 0, keep_depth = 0, i = 1\<rparr>"
    by (simp add: loop_eval string_eval)
  have tok: "has_token tok_else (lit ''  #else // !FOO\<newline>'')"
    "\<not> opens_region (lit ''  #else // !FOO\<newline>'')"
    by (simp_all add: string_eval)
  have "state_at ?L (Suc 1) =
      (state_at ?L 1)\<lparr>output_lines := output_lines (state_at ?L 1) @ [?L ! 1], i := Suc 1\<rparr> \<and>
    ?L ! 1 \<in> set (process_lines ?L)"
    using lt s1 tok by (intro unopened_else_endif_emitted) simp_all
  then show ?thesis using s1 tok by (simp add: numeral_2_eq_2)
qed

text \<open>
  The claim as it is written fails on a line that has the end token and, being a
  directive line with the token \<open>#ifndef USE_VULKAN\<close> as well, is taken by the first
  branch: seen with both counters 0, it raises \<open>skip_depth\<close> to 1 and is not emitted.
\<close>

theorem unopened_else_endif_counterexample:
  "has_token tok_endif (lit ''#endif // #ifndef USE_VULKAN\<newline>'') \<and>
   skip_depth (state_at [lit ''#endif // #ifndef USE_VULKAN\<newline>''] 0) = 0 \<and>
   keep_depth (state_at [lit ''#endif // #ifndef USE_VULKAN\<newline>''] 0) = 0 \<and>
   skip_depth (state_at [lit ''#endif // #ifndef USE_VULKAN\<newline>''] 1) = 1 \<and>
   process_lines [lit ''#endif // #ifndef USE_VULKAN\<newline>''] = []"
  by (simp add: loop_eval string_eval)

section \<open>The end token while both counters are positive\<close>

lemma loop_body_endif_both:
  "is_directive (lines ! i st) \<Longrightarrow> \<not> opens_region (lines ! i st) \<Longrightarrow>
   \<not> has_token tok_else (lines ! i st) \<Longrightarrow> has_token tok_endif (lines ! i st) \<Longrightarrow>
   0 < skip_depth st \<Longrightarrow>
   loop_body lines st = st\<lparr>skip_depth := skip_depth st - 1, i := i st + 1\<rparr>"
  by (simp add: loop_body_def opens_region_def is_directive_def has_token_def)

text \<open>
  C9, as the code has it: a directive line with the end token and none of the tokens
  tested before it (the two opening tokens and the else token), seen while both counters
  are positive, lowers \<open>skip_depth\<close> by one and leaves \<open>keep_depth\<close> and the output as
  they are. On the lines \<open>#ifndef USE_VULKAN\<close>, \<open>a\<close>, \<open>#ifdef USE_VULKAN\<close>, \<open>b\<close>,
  \<open>#endif\<close>, \<open>c\<close>, \<open>#endif\<close> the filter returns the line \<open>c\<close>.
\<close>

theorem endif_prefers_skip_depth:
  "(k < length lines \<longrightarrow> is_directive (lines ! k) \<longrightarrow> \<not> opens_region (lines ! k) \<longrightarrow>
    \<not> has_token tok_else (lines ! k) \<longrightarrow> has_token tok_endif (lines ! k) \<longrightarrow>
    0 < skip_depth (state_at lines k) \<longrightarrow> 0 < keep_depth (state_at lines k) \<longrightarrow>
      state_at lines (Suc k) =
        (state_at lines k)\<lparr>skip_depth := skip_depth (state_at lines k) - 1, i := Suc k\<rparr>) \<and>
   process_lines (map lit [''#ifndef USE_VULKAN\<newline>'', ''a\<newline>'', ''#ifdef USE_VULKAN\<newline>'',
      ''b\<newline>'', ''#endif\<newline>'', ''c\<newline>'', ''#endif\<newline>'']) = [lit ''c\<newline>'']"
proof (intro conjI impI)
  assume "is_directive (lines ! k)" "\<not> opens_region (lines ! k)"
    "\<not> has_token tok_else (lines ! k)" "has_token tok_endif (lines ! k)"
    "0 < skip_depth (state_at lines k)"
  then show "state_at lines (Suc k) =
      (state_at lines k)\<lparr>skip_depth := skip_depth (state_at lines k) - 1, i := Suc k\<rparr>"
    using loop_body_endif_both [of lines "state_at lines k"]
    by (simp add: state_at_Suc i_state_at)
next
  show "process_lines (map lit [''#ifndef USE_VULKAN\<newline>'', ''a\<newline>'', ''#ifdef USE_VULKAN\<newline>'',
      ''b\<newline>'', ''#endif\<newline>'', ''c\<newline>'', ''#endif\<newline>'']) = [lit ''c\<newline>'']"
    by (simp add: loop_eval string_eval)
qed

theorem endif_prefers_skip_depth_witness:
  "is_directive (lit ''#endif\<newline>'') \<and> \<not> opens_region (lit ''#endif\<newline>'') \<and>
   \<not> has_token tok_else (lit ''#endif\<newline>'') \<and> has_token tok_endif (lit ''#endif\<newline>'') \<and>
   state_at (map lit [''#ifndef USE_VULKAN\<newline>'', ''a\<newline>'', ''#ifdef USE_VULKAN\<newline>'',
      ''b\<newline>'', ''#endif\<newline>'', ''c\<newline>'', ''#endif\<newline>'']) 4 =
     \<lparr>output_lines = [], skip_depth = 1, keep_depth = 1, i = 4\<rparr> \<and>
   state_at (map lit [''#ifndef USE_VULKAN\<newline>'', ''a\<newline>'', ''#ifdef USE_VULKAN\<newline>'',
      ''b\<newline>'', ''#endif\<newline>'', ''c\<newline>'', ''#endif\<newline>'']) 5 =
     \<lparr>output_lines = [], skip_depth = 0, keep_depth = 1, i = 5\<rparr>"
proof -
  let ?L = "map lit [''#ifndef USE_VULKAN\<newline>'', ''a\<newline>'', ''#ifdef USE_VULKAN\<newline>'',
      ''b\<newline>'', ''#endif\<newline>'', ''c\<newline>'', ''#endif\<newline>'']"
  have tok: "is_directive (lit ''#endif\<newline>'')" "\<not> opens_region (lit ''#endif\<newline>'')"
    "\<not> has_token tok_else (lit ''#endif\<newline>'')" "has_token tok_endif (lit ''#endif\<newline>'')"
    by (simp_all add: string_eval)
  have s4: "state_at ?L 4 = \<lparr>output_lines = [], skip_depth = 1, keep_depth = 1, i = 4\<rparr>"
    by (simp add: loop_eval string_eval)
  have "state_at ?L (Suc 4) =
      (state_at ?L 4)\<lparr>skip_depth := skip_depth (state_at ?L 4) - 1, i := Suc 4\<rparr>"
    using endif_prefers_skip_depth [of 4 ?L] tok s4 by simp
  moreover have "Suc 4 = 5" by simp
  ultimately have "state_at ?L 5 = \<lparr>output_lines = [], skip_depth = 0, keep_depth = 1, i = 5\<rparr>"
    using s4 by simp
  then show ?thesis using tok s4 by simp
qed

text \<open>
  The first sentence of the claim, as it is written, fails on a line that has the end
  token and is taken by the first branch: after \<open>#ifndef USE_VULKAN\<close> and
  \<open>#ifdef USE_VULKAN\<close> both counters are 1, and the line
  \<open>#endif // #ifndef USE_VULKAN\<close> raises \<open>skip_depth\<close> to 2.
\<close>

theorem endif_prefers_skip_depth_counterexample:
  "has_token tok_endif (lit ''#endif // #ifndef USE_VULKAN\<newline>'') \<and>
   skip_depth (state_at (map lit [''#ifndef USE_VULKAN\<newline>'', ''#ifdef USE_VULKAN\<newline>'',
      ''#endif // #ifndef USE_VULKAN\<newline>'']) 2) = 1 \<and>
   keep_depth (state_at (map lit [''#ifndef USE_VULKAN\<newline>'', ''#ifdef USE_VULKAN\<newline>'',
      ''#endif // #ifndef USE_VULKAN\<newline>'']) 2) = 1 \<and>
   skip_depth (state_at (map lit [''#ifndef USE_VULKAN\<newline>'', ''#ifdef USE_VULKAN\<newline>'',
      ''#endif // #ifndef USE_VULKAN\<newline>'']) 3) = 2 \<and>
   keep_depth (state_at (map lit [''#ifndef USE_VULKAN\<newline>'', ''#ifdef USE_VULKAN\<newline>'',
      ''#endif // #ifndef USE_VULKAN\<newline>'']) 3) = 1"
  by (simp add: loop_eval string_eval)

section \<open>A retain block inside a discard block\<close>

text \<open>
  C4 does not hold of the code. The file below is balanced and properly nested: the
  block of \<open>#ifndef USE_VULKAN\<close> (line 0, closed by line 7) holds a retain block (line 1,
  closed by line 6), whose body is a further retain block (lines 2 to 4) and the line
  \<open>y\<close>. The module announces that it removes the code blocks wrapped in
  \<open>#ifndef USE_VULKAN\<close>, and the claim says that \<open>y\<close> is not emitted. But the
  \<open>#endif\<close> of line 4 is seen with both counters positive and lowers \<open>skip_depth\<close>, from 1
  to 0, so that \<open>y\<close> is seen with \<open>skip_depth\<close> 0 and the filter returns it.
\<close>

theorem nested_retain_body_emitted:
  "skip_depth (state_at (map lit [''#ifndef USE_VULKAN\<newline>'', ''#ifdef USE_VULKAN\<newline>'',
      ''#ifdef USE_VULKAN\<newline>'', ''x\<newline>'', ''#endif\<newline>'', ''y\<newline>'', ''#endif\<newline>'',
      ''#endif\<newline>'']) 5) = 0 \<and>
   keep_depth (state_at (map lit [''#ifndef USE_VULKAN\<newline>'', ''#ifdef USE_VULKAN\<newline>'',
      ''#ifdef USE_VULKAN\<newline>'', ''x\<newline>'', ''#endif\<newline>'', ''y\<newline>'', ''#endif\<newline>'',
      ''#endif\<newline>'']) 5) = 2 \<and>
   process_lines (map lit [''#ifndef USE_VULKAN\<newline>'', ''#ifdef USE_VULKAN\<newline>'',
      ''#ifdef USE_VULKAN\<newline>'', ''x\<newline>'', ''#endif\<newline>'', ''y\<newline>'', ''#endif\<newline>'',
      ''#endif\<newline>'']) = [lit ''y\<newline>'']"
  by (simp add: loop_eval string_eval)

section \<open>The walk and the excluded subtree\<close>

lemma py_in_sublist: "py_in sub s \<longleftrightarrow> sublist sub s"
  by (induction s) (simp_all add: sublist_Cons_right)

lemma py_in_prefix: "py_in sub a \<Longrightarrow> prefix a b \<Longrightarrow> py_in sub b"
  unfolding py_in_sublist
  by (meson prefix_imp_sublist sublist_order.order.trans)

lemma prefix_path_join: "prefix a (path_join sep a b)"
  by (simp add: path_join_def)

text \<open>Every directory of a walk has the path the walk started from as a prefix of its own.\<close>

lemma os_walk_prefix:
  "(root, ds, fs) \<in> set (os_walk sep dirpath t) \<Longrightarrow> prefix dirpath root"
proof (induction sep dirpath t arbitrary: root ds fs rule: os_walk.induct)
  case (1 sep dirpath fs' subs)
  from "1.prems" consider "root = dirpath"
    | name sub where "(name, sub) \<in> set subs"
        "(root, ds, fs) \<in> set (os_walk sep (path_join sep dirpath name) sub)"
    by auto
  then show ?case
  proof cases
    case 1
    then show ?thesis by simp
  next
    case 2
    then have "prefix (path_join sep dirpath name) root"
      using "1.IH" by blast
    then show ?thesis
      using prefix_path_join [of dirpath sep name] by (rule prefix_order.trans [rotated])
  qed
qed

lemma scan_files_append:
  "scan_files sep root fs acc =
   acc @ map (path_join sep root)
     (filter (\<lambda>file. endswith file (lit ''.c'') \<or> endswith file (lit ''.h'')) fs)"
  by (induction fs arbitrary: acc) simp_all

lemma scan_walk_append:
  "scan_walk sep entries acc =
   acc @ concat (map (\<lambda>(root, ds, fs).
     if py_in (lit ''vulkan'') root then []
     else map (path_join sep root)
       (filter (\<lambda>file. endswith file (lit ''.c'') \<or> endswith file (lit ''.h'')) fs)) entries)"
  by (induction sep entries acc rule: scan_walk.induct) (simp_all add: scan_files_append)

lemma scan_walk_excluded:
  "\<forall>(root, ds, fs) \<in> set entries. py_in (lit ''vulkan'') root \<Longrightarrow>
   scan_walk sep entries acc = acc"
  by (induction sep entries acc rule: scan_walk.induct) auto

lemma scan_walk_origin:
  assumes "p \<in> set (scan_walk sep entries [])"
  shows "\<exists>(root, ds, fs) \<in> set entries. \<not> py_in (lit ''vulkan'') root \<and>
    (\<exists>file \<in> set fs. (endswith file (lit ''.c'') \<or> endswith file (lit ''.h'')) \<and>
       p = path_join sep root file)"
  using assms by (auto simp add: scan_walk_append split: if_splits)

section \<open>The rewrite driver\<close>

lemma rewrite_file_readable:
  "files w filepath = Some original_lines \<Longrightarrow>
   rewrite_file filepath (w, n) =
     (if process_lines original_lines \<noteq> original_lines
      then (if filepath \<in> readonly w then Inl (PermissionError filepath)
            else Inr (w\<lparr>files := (files w)(filepath \<mapsto> process_lines original_lines),
                       stdout := stdout w @ [lit ''Modified: '' @ filepath],
                       writes := writes w @ [filepath]\<rparr>, n + 1))
      else Inr (w, n))"
  by (simp add: rewrite_file_def read_lines_def process_file_def print_def write_lines_def)

lemma rewrite_file_frame:
  assumes "rewrite_file filepath s = Inr s'" and "q \<noteq> filepath"
  shows "files (fst s') q = files (fst s) q \<and>
    (q \<in> set (writes (fst s')) \<longleftrightarrow> q \<in> set (writes (fst s)))"
  using assms
  by (cases s)
    (auto simp add: rewrite_file_def read_lines_def process_file_def print_def write_lines_def
      split: option.splits if_splits sum.splits)

lemma rewrite_all_frame:
  "rewrite_all cands s = Inr s' \<Longrightarrow> q \<notin> set cands \<Longrightarrow>
   files (fst s') q = files (fst s) q \<and>
   (q \<in> set (writes (fst s')) \<longleftrightarrow> q \<in> set (writes (fst s)))"
proof (induction cands arbitrary: s)
  case Nil
  then show ?case by simp
next
  case (Cons p rest)
  from Cons.prems(1) obtain s1 where s1: "rewrite_file p s = Inr s1"
    and rest: "rewrite_all rest s1 = Inr s'"
    by (auto split: sum.splits)
  from Cons.prems(2) have "q \<noteq> p" "q \<notin> set rest" by simp_all
  then show ?case
    using rewrite_file_frame [OF s1, of q] Cons.IH [OF rest] by simp
qed

lemma clean_renderer_files_frame:
  assumes "clean_renderer_files sep base_path w = Inr w'"
    and "q \<notin> set (find_files sep w base_path)"
  shows "files w' q = files w q \<and> (q \<in> set (writes w') \<longleftrightarrow> q \<in> set (writes w))"
proof -
  let ?w1 = "print (lit ''Found '' @ str_int (int (length (find_files sep w base_path))) @
      lit '' files to process'') w"
  from assms(1) obtain w2 n where run: "rewrite_all (find_files sep w base_path) (?w1, 0) = Inr (w2, n)"
    and w': "w' = print (lit ''OpenGL code removal complete!'')
      (print (lit ''\<newline>Modified '' @ str_int n @ lit '' files'') w2)"
    by (auto simp add: clean_renderer_files_def Let_def split: sum.splits)
  have "files w2 q = files ?w1 q \<and> (q \<in> set (writes w2) \<longleftrightarrow> q \<in> set (writes ?w1))"
    using rewrite_all_frame [OF run assms(2)] by simp
  then show ?thesis by (simp add: w' print_def)
qed

text \<open>
  A run over distinct candidates, each readable and, where the filter changes it,
  writable: no step disturbs what a later step reads.
\<close>

lemma rewrite_all_distinct:
  "distinct cands \<Longrightarrow> \<forall>p \<in> set cands. files w p \<noteq> None \<Longrightarrow>
   \<forall>p \<in> set cands. needs_rewrite w p \<longrightarrow> p \<notin> readonly w \<Longrightarrow>
   rewrite_all cands (w, n) =
     Inr (w\<lparr>files := (\<lambda>p. if p \<in> set cands then map_option process_lines (files w p)
                          else files w p),
            stdout := stdout w @ map (\<lambda>p. lit ''Modified: '' @ p) (filter (needs_rewrite w) cands),
            writes := writes w @ filter (needs_rewrite w) cands\<rparr>,
          n + int (length (filter (needs_rewrite w) cands)))"
proof (induction cands arbitrary: w n)
  case Nil
  show ?case by simp
next
  case (Cons p rest)
  from Cons.prems obtain ol where ol: "files w p = Some ol" by auto
  have np: "needs_rewrite w p \<longleftrightarrow> process_lines ol \<noteq> ol"
    using ol by (simp add: needs_rewrite_def)
  have wr: "process_lines ol \<noteq> ol \<Longrightarrow> p \<notin> readonly w"
    using Cons.prems(3) np by simp
  define w1 where "w1 = (if process_lines ol \<noteq> ol
      then w\<lparr>files := (files w)(p \<mapsto> process_lines ol),
             stdout := stdout w @ [lit ''Modified: '' @ p],
             writes := writes w @ [p]\<rparr>
      else w)"
  define n1 where "n1 = (if process_lines ol \<noteq> ol then n + 1 else n)"
  have step: "rewrite_file p (w, n) = Inr (w1, n1)"
    using rewrite_file_readable [OF ol, of n] wr by (simp add: w1_def n1_def)
  have ro: "readonly w1 = readonly w"
    by (simp add: w1_def)
  have same: "files w1 q = files w q" if "q \<in> set rest" for q
    using that Cons.prems(1) by (auto simp add: w1_def)
  then have nr_eq: "needs_rewrite w1 q = needs_rewrite w q" if "q \<in> set rest" for q
    using that by (simp add: needs_rewrite_def)
  then have nr: "filter (needs_rewrite w1) rest = filter (needs_rewrite w) rest"
    by (intro filter_cong) simp_all
  have "distinct rest" "\<forall>q \<in> set rest. files w1 q \<noteq> None"
    "\<forall>q \<in> set rest. needs_rewrite w1 q \<longrightarrow> q \<notin> readonly w1"
    using Cons.prems same nr_eq ro by simp_all
  then have IH: "rewrite_all rest (w1, n1) =
      Inr (w1\<lparr>files := (\<lambda>q. if q \<in> set rest then map_option process_lines (files w1 q)
                            else files w1 q),
              stdout := stdout w1 @ map (\<lambda>p. lit ''Modified: '' @ p) (filter (needs_rewrite w) rest),
              writes := writes w1 @ filter (needs_rewrite w) rest\<rparr>,
           n1 + int (length (filter (needs_rewrite w) rest)))"
    using Cons.IH [of w1 n1] nr by simp
  have fs: "(\<lambda>q. if q \<in> set rest then map_option process_lines (files w1 q) else files w1 q) =
      (\<lambda>q. if q \<in> set (p # rest) then map_option process_lines (files w q) else files w q)"
  proof
    fix q
    show "(if q \<in> set rest then map_option process_lines (files w1 q) else files w1 q) =
        (if q \<in> set (p # rest) then map_option process_lines (files w q) else files w q)"
      using same [of q] Cons.prems(1) ol by (auto simp add: w1_def)
  qed
  have "rewrite_all (p # rest) (w, n) = rewrite_all rest (w1, n1)"
    using step by simp
  also note IH
  finally show ?case
    unfolding fs using np by (simp add: w1_def n1_def)
qed

text \<open>The whole driver on such a run: the three framing lines around the loop.\<close>

lemma print_fields:
  "files (print s w) = files w" "readonly (print s w) = readonly w"
  "writes (print s w) = writes w" "stdout (print s w) = stdout w @ [s]"
  by (simp_all add: print_def)

lemma needs_rewrite_print: "needs_rewrite (print s w) = needs_rewrite w"
  by (rule ext) (simp add: needs_rewrite_def print_fields)

lemma clean_renderer_files_distinct:
  assumes "distinct (find_files sep w base_path)"
    and "\<forall>p \<in> set (find_files sep w base_path). files w p \<noteq> None"
    and "\<forall>p \<in> set (find_files sep w base_path). needs_rewrite w p \<longrightarrow> p \<notin> readonly w"
  shows "clean_renderer_files sep base_path w =
     Inr (w\<lparr>files := (\<lambda>p. if p \<in> set (find_files sep w base_path)
                          then map_option process_lines (files w p) else files w p),
            stdout := stdout w @
              [lit ''Found '' @ str_int (int (length (find_files sep w base_path))) @
                 lit '' files to process''] @
              map (\<lambda>p. lit ''Modified: '' @ p)
                (filter (needs_rewrite w) (find_files sep w base_path)) @
              [lit ''\<newline>Modified '' @
                 str_int (int (length (filter (needs_rewrite w) (find_files sep w base_path)))) @
                 lit '' files'',
               lit ''OpenGL code removal complete!''],
            writes := writes w @ filter (needs_rewrite w) (find_files sep w base_path)\<rparr>)"
proof -
  let ?cands = "find_files sep w base_path"
  let ?found = "lit ''Found '' @ str_int (int (length ?cands)) @ lit '' files to process''"
  have "rewrite_all ?cands (print ?found w, 0) =
     Inr (print ?found w\<lparr>files := (\<lambda>p. if p \<in> set ?cands
                 then map_option process_lines (files (print ?found w) p)
                 else files (print ?found w) p),
            stdout := stdout (print ?found w) @
              map (\<lambda>p. lit ''Modified: '' @ p) (filter (needs_rewrite (print ?found w)) ?cands),
            writes := writes (print ?found w) @ filter (needs_rewrite (print ?found w)) ?cands\<rparr>,
          0 + int (length (filter (needs_rewrite (print ?found w)) ?cands)))"
    using assms by (intro rewrite_all_distinct) (simp_all add: needs_rewrite_print print_fields)
  then have run: "rewrite_all ?cands (print ?found w, 0) =
     Inr (w\<lparr>files := (\<lambda>p. if p \<in> set ?cands then map_option process_lines (files w p)
                          else files w p),
            stdout := stdout w @ [?found] @
              map (\<lambda>p. lit ''Modified: '' @ p) (filter (needs_rewrite w) ?cands),
            writes := writes w @ filter (needs_rewrite w) ?cands\<rparr>,
          int (length (filter (needs_rewrite w) ?cands)))"
    unfolding needs_rewrite_print print_fields by (simp add: print_def)
  show ?thesis
    unfolding clean_renderer_files_def Let_def run by (simp add: print_def)
qed

section \<open>The driver on the example directory\<close>

lemmas walk_eval =
  find_files_def walk_def renderer_path_def path_join_def endswith_def suffix_to_prefix
  example_world_def example_tree_def lit_def

lemma example_find_files:
  "find_files (lit ''/'') example_world (lit ''q3'') =
     [lit ''q3/src/engine/renderer/tr_main.c'', lit ''q3/src/engine/renderer/common/tr_local.h'']"
  by (simp add: walk_eval)

lemma example_files:
  "files example_world (lit ''q3/src/engine/renderer/tr_main.c'') =
     Some [lit ''#ifndef USE_VULKAN\<newline>'', lit ''gl();\<newline>'', lit ''#endif\<newline>'', lit ''vk();\<newline>'']"
  "files example_world (lit ''q3/src/engine/renderer/common/tr_local.h'') =
     Some [lit ''int x;\<newline>'']"
  "files example_world (lit ''q3/src/engine/renderer/vulkan/vk.c'') =
     Some [lit ''#ifndef USE_VULKAN\<newline>'', lit ''gl_code();\<newline>'', lit ''#endif\<newline>'']"
  by (simp_all add: example_world_def lit_def)

lemma example_filtered:
  "process_lines [lit ''#ifndef USE_VULKAN\<newline>'', lit ''gl();\<newline>'', lit ''#endif\<newline>'', lit ''vk();\<newline>''] =
     [lit ''vk();\<newline>'']"
  "process_lines [lit ''int x;\<newline>''] = [lit ''int x;\<newline>'']"
  by (simp_all add: loop_eval string_eval)

lemma example_changed:
  "[lit ''vk();\<newline>''] \<noteq>
     [lit ''#ifndef USE_VULKAN\<newline>'', lit ''gl();\<newline>'', lit ''#endif\<newline>'', lit ''vk();\<newline>'']"
  by simp

lemma example_paths_differ:
  "lit ''q3/src/engine/renderer/common/tr_local.h'' \<noteq> lit ''q3/src/engine/renderer/tr_main.c''"
  "lit ''q3/src/engine/renderer/vulkan/vk.c'' \<noteq> lit ''q3/src/engine/renderer/tr_main.c''"
  "lit ''q3/src/engine/renderer/vulkan/vk.c'' \<noteq> lit ''q3/src/engine/renderer/common/tr_local.h''"
  by (simp_all add: lit_def)

lemma example_readonly:
  "lit ''q3/src/engine/renderer/tr_main.c'' \<notin> readonly example_world"
  "lit ''q3/src/engine/renderer/common/tr_local.h'' \<in> readonly example_world"
  "lit ''q3/src/engine/renderer/vulkan/vk.c'' \<in> readonly example_world"
  by (simp_all add: example_world_def lit_def)

lemma example_numerals: "str_int 2 = lit ''2''" "str_int 1 = lit ''1''"
  by (simp_all add: str_int_def str_nat.simps lit_def)

lemma example_run:
  "clean_renderer_files (lit ''/'') (lit ''q3'') example_world =
     Inr (example_world
       \<lparr>files := (files example_world)
          (lit ''q3/src/engine/renderer/tr_main.c'' \<mapsto> [lit ''vk();\<newline>'']),
        stdout := [lit ''Found 2 files to process'',
          lit ''Modified: q3/src/engine/renderer/tr_main.c'',
          lit ''\<newline>Modified 1 files'', lit ''OpenGL code removal complete!''],
        writes := [lit ''q3/src/engine/renderer/tr_main.c'']\<rparr>)"
proof -
  have out: "stdout example_world = []" "writes example_world = []"
    by (simp_all add: example_world_def)
  have msgs: "lit ''Found '' @ lit ''2'' @ lit '' files to process'' = lit ''Found 2 files to process''"
    "lit ''Modified: '' @ lit ''q3/src/engine/renderer/tr_main.c'' =
       lit ''Modified: q3/src/engine/renderer/tr_main.c''"
    "lit ''\<newline>Modified '' @ lit ''1'' @ lit '' files'' = lit ''\<newline>Modified 1 files''"
    by (simp_all add: lit_def)
  show ?thesis
    by (simp add: clean_renderer_files_def example_find_files rewrite_file_def read_lines_def
        process_file_def print_def write_lines_def example_files example_filtered
        example_changed example_paths_differ example_readonly example_numerals out msgs)
qed

section \<open>The excluded subtree\<close>

text \<open>
  C6: a walk that starts at a directory whose path contains \<open>vulkan\<close> visits only
  directories whose path contains it, and the selection loop takes no file from any of
  them, whatever their names; \<open>os.walk\<close> reaches every directory below a visited one by
  such a walk. Every path the driver selects is a file of a visited directory whose path
  does not contain \<open>vulkan\<close>. A run of the driver leaves the text of every path it has not
  selected as it was, and opens no such path for writing.
\<close>

theorem excluded_subtree_untouched:
  "(py_in (lit ''vulkan'') dirpath \<longrightarrow>
      (\<forall>(root, ds, fs) \<in> set (os_walk sep dirpath t). py_in (lit ''vulkan'') root) \<and>
      scan_walk sep (os_walk sep dirpath t) files_to_process = files_to_process) \<and>
   (\<forall>p \<in> set (find_files sep w base_path).
      \<exists>(root, ds, fs) \<in> set (walk sep w (renderer_path sep base_path)).
        \<not> py_in (lit ''vulkan'') root \<and> (\<exists>file \<in> set fs. p = path_join sep root file)) \<and>
   (clean_renderer_files sep base_path w = Inr w' \<longrightarrow>
      q \<notin> set (find_files sep w base_path) \<longrightarrow>
      files w' q = files w q \<and> (q \<in> set (writes w') \<longleftrightarrow> q \<in> set (writes w)))"
proof (intro conjI impI)
  assume v: "py_in (lit ''vulkan'') dirpath"
  show all: "\<forall>(root, ds, fs) \<in> set (os_walk sep dirpath t). py_in (lit ''vulkan'') root"
    using os_walk_prefix [of _ _ _ sep dirpath t] py_in_prefix [OF v] by auto
  then show "scan_walk sep (os_walk sep dirpath t) files_to_process = files_to_process"
    by (rule scan_walk_excluded)
next
  show "\<forall>p \<in> set (find_files sep w base_path).
      \<exists>(root, ds, fs) \<in> set (walk sep w (renderer_path sep base_path)).
        \<not> py_in (lit ''vulkan'') root \<and> (\<exists>file \<in> set fs. p = path_join sep root file)"
  proof
    fix p
    assume "p \<in> set (find_files sep w base_path)"
    then have "p \<in> set (scan_walk sep (walk sep w (renderer_path sep base_path)) [])"
      by (simp add: find_files_def)
    from scan_walk_origin [OF this]
    show "\<exists>(root, ds, fs) \<in> set (walk sep w (renderer_path sep base_path)).
        \<not> py_in (lit ''vulkan'') root \<and> (\<exists>file \<in> set fs. p = path_join sep root file)"
      by fast
  qed
next
  assume "clean_renderer_files sep base_path w = Inr w'"
    and "q \<notin> set (find_files sep w base_path)"
  then show "files w' q = files w q"
    using clean_renderer_files_frame by blast
next
  assume "clean_renderer_files sep base_path w = Inr w'"
    and "q \<notin> set (find_files sep w base_path)"
  then show "q \<in> set (writes w') \<longleftrightarrow> q \<in> set (writes w)"
    using clean_renderer_files_frame by blast
qed

theorem excluded_subtree_untouched_witness:
  "py_in (lit ''vulkan'') (lit ''q3/src/engine/renderer/vulkan'') \<and>
   scan_walk (lit ''/'')
     (os_walk (lit ''/'') (lit ''q3/src/engine/renderer/vulkan'')
        (Dir [lit ''vk.c''] [(lit ''shaders'', Dir [lit ''gen.h''] [])])) [] = [] \<and>
   lit ''q3/src/engine/renderer/vulkan/vk.c'' \<notin>
     set (find_files (lit ''/'') example_world (lit ''q3'')) \<and>
   (\<exists>w'. clean_renderer_files (lit ''/'') (lit ''q3'') example_world = Inr w' \<and>
      files w' (lit ''q3/src/engine/renderer/vulkan/vk.c'') =
        Some [lit ''#ifndef USE_VULKAN\<newline>'', lit ''gl_code();\<newline>'', lit ''#endif\<newline>''] \<and>
      lit ''q3/src/engine/renderer/vulkan/vk.c'' \<notin> set (writes w'))"
proof -
  let ?q = "lit ''q3/src/engine/renderer/vulkan/vk.c''"
  let ?w' = "example_world
       \<lparr>files := (files example_world)
          (lit ''q3/src/engine/renderer/tr_main.c'' \<mapsto> [lit ''vk();\<newline>'']),
        stdout := [lit ''Found 2 files to process'',
          lit ''Modified: q3/src/engine/renderer/tr_main.c'',
          lit ''\<newline>Modified 1 files'', lit ''OpenGL code removal complete!''],
        writes := [lit ''q3/src/engine/renderer/tr_main.c'']\<rparr>"
  have v: "py_in (lit ''vulkan'') (lit ''q3/src/engine/renderer/vulkan'')"
    by (simp add: lit_def)
  have sub: "scan_walk (lit ''/'')
     (os_walk (lit ''/'') (lit ''q3/src/engine/renderer/vulkan'')
        (Dir [lit ''vk.c''] [(lit ''shaders'', Dir [lit ''gen.h''] [])])) [] = []"
    using excluded_subtree_untouched [of "lit ''q3/src/engine/renderer/vulkan''" "lit ''/''"
        "Dir [lit ''vk.c''] [(lit ''shaders'', Dir [lit ''gen.h''] [])]" "[]"] v
    by simp
  have nq: "?q \<notin> set (find_files (lit ''/'') example_world (lit ''q3''))"
    using example_paths_differ by (simp add: example_find_files)
  have "files ?w' ?q = files example_world ?q \<and>
      (?q \<in> set (writes ?w') \<longleftrightarrow> ?q \<in> set (writes example_world))"
    using excluded_subtree_untouched [of _ "lit ''/''" _ _ example_world "lit ''q3''" ?w' ?q]
      example_run nq
    by blast
  then have "files ?w' ?q =
      Some [lit ''#ifndef USE_VULKAN\<newline>'', lit ''gl_code();\<newline>'', lit ''#endif\<newline>''] \<and>
      ?q \<notin> set (writes ?w')"
    by (simp add: example_files) (simp add: example_world_def)
  with v sub nq example_run show ?thesis by blast
qed

section \<open>Writing only what changed\<close>

text \<open>
  C7: for a candidate that can be read, the loop body opens the file for writing, stores
  the filtered lines, prints the path as modified and counts it exactly when the filtered
  lines differ from the original lines, and the run ends there with the error if the file
  cannot be written; when the lines are the same it leaves the world and the count as
  they are, whether the file can be written or not. For the driver as a whole, when the
  candidates it has found are distinct paths, each readable and, where the filter changes
  it, writable: the files opened for writing and the paths reported are the candidates
  whose filtered lines differ, in the order found, each now holding its filtered lines;
  the count printed is their number; and every other file is as it was.
\<close>

theorem rewrite_iff_changed:
  "(files w filepath = Some original_lines \<longrightarrow>
      rewrite_file filepath (w, n) =
        (if process_lines original_lines \<noteq> original_lines
         then (if filepath \<in> readonly w then Inl (PermissionError filepath)
               else Inr (w\<lparr>files := (files w)(filepath \<mapsto> process_lines original_lines),
                          stdout := stdout w @ [lit ''Modified: '' @ filepath],
                          writes := writes w @ [filepath]\<rparr>, n + 1))
         else Inr (w, n))) \<and>
   (distinct (find_files sep w base_path) \<longrightarrow>
    (\<forall>p \<in> set (find_files sep w base_path). files w p \<noteq> None) \<longrightarrow>
    (\<forall>p \<in> set (find_files sep w base_path). needs_rewrite w p \<longrightarrow> p \<notin> readonly w) \<longrightarrow>
      clean_renderer_files sep base_path w =
        Inr (w\<lparr>files := (\<lambda>p. if p \<in> set (find_files sep w base_path)
                             then map_option process_lines (files w p) else files w p),
               stdout := stdout w @
                 [lit ''Found '' @ str_int (int (length (find_files sep w base_path))) @
                    lit '' files to process''] @
                 map (\<lambda>p. lit ''Modified: '' @ p)
                   (filter (needs_rewrite w) (find_files sep w base_path)) @
                 [lit ''\<newline>Modified '' @
                    str_int (int (length
                      (filter (needs_rewrite w) (find_files sep w base_path)))) @
                    lit '' files'',
                  lit ''OpenGL code removal complete!''],
               writes := writes w @
                 filter (needs_rewrite w) (find_files sep w base_path)\<rparr>))"
  using rewrite_file_readable [of w filepath original_lines n]
    clean_renderer_files_distinct [of sep w base_path]
  by blast

theorem rewrite_iff_changed_witness:
  "distinct (find_files (lit ''/'') example_world (lit ''q3'')) \<and>
   needs_rewrite example_world (lit ''q3/src/engine/renderer/tr_main.c'') \<and>
   lit ''q3/src/engine/renderer/tr_main.c'' \<notin> readonly example_world \<and>
   \<not> needs_rewrite example_world (lit ''q3/src/engine/renderer/common/tr_local.h'') \<and>
   lit ''q3/src/engine/renderer/common/tr_local.h'' \<in> readonly example_world \<and>
   (\<exists>w'. clean_renderer_files (lit ''/'') (lit ''q3'') example_world = Inr w' \<and>
      writes w' = [lit ''q3/src/engine/renderer/tr_main.c''] \<and>
      stdout w' = [lit ''Found 2 files to process'',
        lit ''Modified: q3/src/engine/renderer/tr_main.c'',
        lit ''\<newline>Modified 1 files'', lit ''OpenGL code removal complete!''] \<and>
      files w' (lit ''q3/src/engine/renderer/tr_main.c'') = Some [lit ''vk();\<newline>''] \<and>
      files w' (lit ''q3/src/engine/renderer/common/tr_local.h'') = Some [lit ''int x;\<newline>'']) \<and>
   rewrite_file (lit ''q3/src/engine/renderer/tr_main.c'') (example_world, 0) =
     Inr (example_world
       \<lparr>files := (files example_world)
          (lit ''q3/src/engine/renderer/tr_main.c'' \<mapsto> [lit ''vk();\<newline>'']),
        stdout := [lit ''Modified: q3/src/engine/renderer/tr_main.c''],
        writes := [lit ''q3/src/engine/renderer/tr_main.c'']\<rparr>, 1) \<and>
   rewrite_file (lit ''q3/src/engine/renderer/common/tr_local.h'') (example_world, 0) =
     Inr (example_world, 0) \<and>
   rewrite_file (lit ''q3/src/engine/renderer/vulkan/vk.c'') (example_world, 0) =
     Inl (PermissionError (lit ''q3/src/engine/renderer/vulkan/vk.c''))"
proof -
  let ?p1 = "lit ''q3/src/engine/renderer/tr_main.c''"
  let ?p2 = "lit ''q3/src/engine/renderer/common/tr_local.h''"
  let ?p3 = "lit ''q3/src/engine/renderer/vulkan/vk.c''"
  let ?l1 = "[lit ''#ifndef USE_VULKAN\<newline>'', lit ''gl();\<newline>'', lit ''#endif\<newline>'', lit ''vk();\<newline>'']"
  let ?l2 = "[lit ''int x;\<newline>'']"
  let ?l3 = "[lit ''#ifndef USE_VULKAN\<newline>'', lit ''gl_code();\<newline>'', lit ''#endif\<newline>'']"
  let ?cands = "find_files (lit ''/'') example_world (lit ''q3'')"
  have out: "stdout example_world = []" "writes example_world = []"
    by (simp_all add: example_world_def)
  have msgs: "lit ''Found '' @ lit ''2'' @ lit '' files to process'' = lit ''Found 2 files to process''"
    "lit ''Modified: '' @ ?p1 = lit ''Modified: q3/src/engine/renderer/tr_main.c''"
    "lit ''\<newline>Modified '' @ lit ''1'' @ lit '' files'' = lit ''\<newline>Modified 1 files''"
    by (simp_all add: lit_def)
  have l3: "process_lines ?l3 = []"
    by (simp add: loop_eval string_eval)
  have nr: "needs_rewrite example_world ?p1" "\<not> needs_rewrite example_world ?p2"
    by (simp_all add: needs_rewrite_def example_files example_filtered)
  have dist: "distinct ?cands"
    using example_paths_differ by (simp add: example_find_files)
  have readable: "\<forall>p \<in> set ?cands. files example_world p \<noteq> None"
    by (simp add: example_find_files example_files)
  have writable: "\<forall>p \<in> set ?cands. needs_rewrite example_world p \<longrightarrow> p \<notin> readonly example_world"
    by (simp add: example_find_files example_readonly nr)
  have r1: "rewrite_file ?p1 (example_world, 0) =
      Inr (example_world\<lparr>files := (files example_world)(?p1 \<mapsto> [lit ''vk();\<newline>'']),
        stdout := [lit ''Modified: q3/src/engine/renderer/tr_main.c''],
        writes := [?p1]\<rparr>, 1)"
    using rewrite_iff_changed [of example_world ?p1 ?l1 0] example_files(1)
    by (simp add: example_filtered example_readonly out msgs)
  have r2: "rewrite_file ?p2 (example_world, 0) = Inr (example_world, 0)"
    using rewrite_iff_changed [of example_world ?p2 ?l2 0] example_files(2)
    by (simp add: example_filtered)
  have r3: "rewrite_file ?p3 (example_world, 0) = Inl (PermissionError ?p3)"
    using rewrite_iff_changed [of example_world ?p3 ?l3 0] example_files(3)
    by (simp add: l3 example_readonly)
  have "clean_renderer_files (lit ''/'') (lit ''q3'') example_world =
      Inr (example_world\<lparr>files := (\<lambda>p. if p \<in> set ?cands
                then map_option process_lines (files example_world p)
                else files example_world p),
             stdout := stdout example_world @
               [lit ''Found '' @ str_int (int (length ?cands)) @ lit '' files to process''] @
               map (\<lambda>p. lit ''Modified: '' @ p) (filter (needs_rewrite example_world) ?cands) @
               [lit ''\<newline>Modified '' @
                  str_int (int (length (filter (needs_rewrite example_world) ?cands))) @
                  lit '' files'',
                lit ''OpenGL code removal complete!''],
             writes := writes example_world @ filter (needs_rewrite example_world) ?cands\<rparr>)"
    using rewrite_iff_changed [of example_world _ _ _ "lit ''/''" "lit ''q3''"]
      dist readable writable
    by blast
  then have all: "clean_renderer_files (lit ''/'') (lit ''q3'') example_world =
      Inr (example_world\<lparr>files := (\<lambda>p. if p = ?p1 \<or> p = ?p2
                then map_option process_lines (files example_world p)
                else files example_world p),
             stdout := [lit ''Found 2 files to process'',
               lit ''Modified: q3/src/engine/renderer/tr_main.c'',
               lit ''\<newline>Modified 1 files'', lit ''OpenGL code removal complete!''],
             writes := [?p1]\<rparr>)"
    by (simp add: example_find_files nr out msgs example_numerals)
  have "\<exists>w'. clean_renderer_files (lit ''/'') (lit ''q3'') example_world = Inr w' \<and>
      writes w' = [?p1] \<and>
      stdout w' = [lit ''Found 2 files to process'',
        lit ''Modified: q3/src/engine/renderer/tr_main.c'',
        lit ''\<newline>Modified 1 files'', lit ''OpenGL code removal complete!''] \<and>
      files w' ?p1 = Some [lit ''vk();\<newline>''] \<and>
      files w' ?p2 = Some [lit ''int x;\<newline>'']"
    unfolding all by (simp add: example_files example_filtered)
  with dist nr example_readonly(1,2) r1 r2 r3 show ?thesis
    by blast
qed

end
